theory Spec2Isabelle
  imports Complex_Main "HOL-Library.Multiset" "HOL-Library.Sublist"
begin

section \<open>Python values and errors\<close>

text \<open>
  The objects a caller can hand to the examples: \<open>int\<close> objects (unbounded), \<open>float\<close>
  objects (their representation \<open>'f\<close> is left open: no definition below computes with
  it), \<open>str\<close> objects and \<open>None\<close>.
\<close>

datatype 'f pyval = PInt (int_val: int) | PFloat 'f | PStr string | PNone

text \<open>
  Every error of the two modules is a Python \<open>ValueError\<close>; the constructors keep the
  three messages apart: \<open>Invalid number: {num}\<close> (with the offending value),
  \<open>Input must be an integer\<close> and \<open>Input must be positive\<close>.
\<close>

datatype 'f error = InvalidNumber "'f pyval" | MustBeInteger | MustBePositive

text \<open>\<open>isinstance(x, int)\<close> and \<open>isinstance(x, (int, float))\<close>.\<close>

fun isinstance_int :: "'f pyval \<Rightarrow> bool" where
  "isinstance_int (PInt n) = True"
| "isinstance_int (PFloat x) = False"
| "isinstance_int (PStr s) = False"
| "isinstance_int PNone = False"

fun isinstance_int_float :: "'f pyval \<Rightarrow> bool" where
  "isinstance_int_float (PInt n) = True"
| "isinstance_int_float (PFloat x) = True"
| "isinstance_int_float (PStr s) = False"
| "isinstance_int_float PNone = False"

section \<open>data_processor.py: class DataProcessor\<close>

text \<open>
  The object has one field, the list \<open>data\<close>. A method takes the object as its last
  argument and returns its outcome together with the object as the call leaves it, so
  that what a raising call has already appended stays visible.
\<close>

record 'v DataProcessor =
  data :: "'v list"

definition init :: "'v DataProcessor" where
  "init = \<lparr>data = []\<rparr>"

text \<open>
  \<open>add_numbers\<close>: one loop that checks an element and appends it before it looks at
  the next one.
\<close>

fun add_numbers ::
  "'f pyval list \<Rightarrow> 'f pyval DataProcessor \<Rightarrow> ('f error + unit) \<times> 'f pyval DataProcessor" where
  "add_numbers [] self = (Inr (), self)"
| "add_numbers (num # numbers) self =
     (if \<not> isinstance_int_float num then (Inl (InvalidNumber num), self)
      else add_numbers numbers (self\<lparr>data := data self @ [num]\<rparr>))"

text \<open>
  \<open>running_average\<close> uses the stored objects through \<open>total + num\<close>, starting from the
  \<open>int\<close> object \<open>0\<close>, and through the true division \<open>total / i\<close> by the loop counter.
  Both are Python's own operators and both can raise (an \<open>int\<close> beyond the range of
  \<open>float\<close> gives \<open>OverflowError\<close>), so they are parameters that return an error or a
  value, over any type \<open>'v\<close> of stored objects, \<open>'r\<close> of quotients and \<open>'e\<close> of errors.
  Python's operators on \<open>int\<close> and \<open>float\<close> objects are given further down.
\<close>

record ('v, 'r, 'e) operators =
  zero_int :: 'v
  add :: "'v \<Rightarrow> 'v \<Rightarrow> 'e + 'v"
  truediv :: "'v \<Rightarrow> nat \<Rightarrow> 'e + 'r"

text \<open>
  The loop \<open>for i, num in enumerate(self.data, 1)\<close>: an operator that raises ends the
  call with its error. The method does not write to \<open>self\<close>.
\<close>

fun running_average_loop ::
  "('v, 'r, 'e) operators \<Rightarrow> 'v list \<Rightarrow> nat \<Rightarrow> 'v \<Rightarrow> 'r list \<Rightarrow> 'e + 'r list" where
  "running_average_loop ops [] i total' result = Inr result"
| "running_average_loop ops (num # rest) i total' result =
     (case add ops total' num of
        Inl e \<Rightarrow> Inl e
      | Inr total'' \<Rightarrow>
          (case truediv ops total'' i of
             Inl e \<Rightarrow> Inl e
           | Inr average \<Rightarrow>
               running_average_loop ops rest (i + 1) total'' (result @ [average])))"

definition running_average ::
  "('v, 'r, 'e) operators \<Rightarrow> 'v DataProcessor \<Rightarrow> ('e + 'r list) \<times> 'v DataProcessor" where
  "running_average ops self =
     (if data self = [] then (Inr [], self)
      else (running_average_loop ops (data self) 1 (zero_int ops) [], self))"

text \<open>
  The quotient the specification writes \<open>sum(S[0..i]) / (i + 1)\<close>, with the same
  operators: \<open>python_sum\<close> adds from the left, starting from \<open>total'\<close>, and
  \<open>prefix_mean ops xs n\<close> divides the sum of the first \<open>n\<close> elements by \<open>n\<close>.
\<close>

fun python_sum :: "('v, 'r, 'e) operators \<Rightarrow> 'v \<Rightarrow> 'v list \<Rightarrow> 'e + 'v" where
  "python_sum ops total' [] = Inr total'"
| "python_sum ops total' (num # rest) =
     (case add ops total' num of
        Inl e \<Rightarrow> Inl e
      | Inr total'' \<Rightarrow> python_sum ops total'' rest)"

definition prefix_mean :: "('v, 'r, 'e) operators \<Rightarrow> 'v list \<Rightarrow> nat \<Rightarrow> 'e + 'r" where
  "prefix_mean ops xs n =
     (case python_sum ops (zero_int ops) (take n xs) of
        Inl e \<Rightarrow> Inl e
      | Inr total' \<Rightarrow> truediv ops total' n)"

text \<open>
  \<open>find_peaks\<close>: the loop \<open>for i in range(1, len(self.data) - 1)\<close> is a fold over the
  indices, \<open>peaks\<close> being the accumulator. It runs only when \<open>len(self.data) \<ge> 3\<close>, so
  every index it reads is in range.
  The comparison \<open>>\<close> is the order of the element type \<open>'v\<close>, a class without axioms:
  nothing is assumed of how Python compares \<open>int\<close> and \<open>float\<close> objects.
\<close>

definition find_peaks ::
  "'v::ord option \<Rightarrow> 'v DataProcessor \<Rightarrow> (nat \<times> 'v) list \<times> 'v DataProcessor" where
  "find_peaks threshold self =
     (if length (data self) < 3 then ([], self)
      else (fold (\<lambda>i peaks.
                    if data self ! i > data self ! (i - 1) \<and> data self ! i > data self ! (i + 1)
                    then (if (case threshold of None \<Rightarrow> True | Some t \<Rightarrow> data self ! i > t)
                          then peaks @ [(i, data self ! i)]
                          else peaks)
                    else peaks)
              [1 ..< length (data self) - 1] [],
            self))"

subsection \<open>Python's \<open>+\<close> and \<open>/\<close> on \<open>int\<close> and \<open>float\<close> objects\<close>

text \<open>
  The \<open>float\<close> objects stay abstract: \<open>nearest\<close> rounds a real number within range to
  the nearest \<open>float\<close>, and \<open>float_add\<close> and \<open>float_div\<close> are \<open>+\<close> and \<open>/\<close> on two
  \<open>float\<close> objects, which never raise for a divisor other than zero (out of range they
  give \<open>inf\<close>).
\<close>

datatype arith_error = OverflowError | ZeroDivisionError | TypeError

record 'f float_arith =
  nearest :: "real \<Rightarrow> 'f"
  float_add :: "'f \<Rightarrow> 'f \<Rightarrow> 'f"
  float_div :: "'f \<Rightarrow> 'f \<Rightarrow> 'f"

text \<open>
  The least magnitude that rounds out of the range of a double: the largest double is
  \<open>2 ^ 1024 - 2 ^ 971\<close>, and rounding to nearest takes everything from
  \<open>2 ^ 1024 - 2 ^ 970\<close> on beyond it. Converting an \<open>int\<close> to \<open>float\<close> and dividing two
  \<open>int\<close> objects raise \<open>OverflowError\<close> from this magnitude on, and round otherwise.
\<close>

definition float_overflow_bound :: real where
  "float_overflow_bound = 2 ^ 1024 - 2 ^ 970"

definition float_of_int :: "'f float_arith \<Rightarrow> int \<Rightarrow> arith_error + 'f" where
  "float_of_int fl a =
     (if float_overflow_bound \<le> \<bar>real_of_int a\<bar> then Inl OverflowError
      else Inr (nearest fl (real_of_int a)))"

definition int_truediv :: "'f float_arith \<Rightarrow> int \<Rightarrow> int \<Rightarrow> arith_error + 'f" where
  "int_truediv fl a b =
     (if b = 0 then Inl ZeroDivisionError
      else if float_overflow_bound \<le> \<bar>real_of_int a / real_of_int b\<bar> then Inl OverflowError
      else Inr (nearest fl (real_of_int a / real_of_int b)))"

text \<open>
  \<open>x + y\<close>: two \<open>int\<close> objects add exactly; an \<open>int\<close> next to a \<open>float\<close> is converted
  first; two strings are joined; every other pair of the objects modelled here is a
  \<open>TypeError\<close>.
\<close>

fun py_add :: "'f float_arith \<Rightarrow> 'f pyval \<Rightarrow> 'f pyval \<Rightarrow> arith_error + 'f pyval" where
  "py_add fl (PInt a) (PInt b) = Inr (PInt (a + b))"
| "py_add fl (PInt a) (PFloat y) =
     (case float_of_int fl a of
        Inl e \<Rightarrow> Inl e
      | Inr x \<Rightarrow> Inr (PFloat (float_add fl x y)))"
| "py_add fl (PFloat x) (PInt b) =
     (case float_of_int fl b of
        Inl e \<Rightarrow> Inl e
      | Inr y \<Rightarrow> Inr (PFloat (float_add fl x y)))"
| "py_add fl (PFloat x) (PFloat y) = Inr (PFloat (float_add fl x y))"
| "py_add fl (PStr s) (PStr t) = Inr (PStr (s @ t))"
| "py_add fl x y = Inl TypeError"

text \<open>\<open>x / i\<close> for an \<open>int\<close> object \<open>i\<close> that is not negative.\<close>

fun py_truediv :: "'f float_arith \<Rightarrow> 'f pyval \<Rightarrow> nat \<Rightarrow> arith_error + 'f pyval" where
  "py_truediv fl (PInt a) i =
     (case int_truediv fl a (int i) of
        Inl e \<Rightarrow> Inl e
      | Inr q \<Rightarrow> Inr (PFloat q))"
| "py_truediv fl (PFloat x) i =
     (if i = 0 then Inl ZeroDivisionError
      else (case float_of_int fl (int i) of
              Inl e \<Rightarrow> Inl e
            | Inr y \<Rightarrow> Inr (PFloat (float_div fl x y))))"
| "py_truediv fl x i = Inl TypeError"

definition python_operators ::
  "'f float_arith \<Rightarrow> ('f pyval, 'f pyval, arith_error) operators" where
  "python_operators fl = \<lparr>zero_int = PInt 0, add = py_add fl, truediv = py_truediv fl\<rparr>"

text \<open>
  A float arithmetic to evaluate examples with: the real numbers, not rounded. Which
  calls raise does not depend on the float arithmetic.
\<close>

definition unrounded :: "real float_arith" where
  "unrounded = \<lparr>nearest = (\<lambda>q. q), float_add = (+), float_div = (/)\<rparr>"

section \<open>solve.py: class Solver\<close>

text \<open>
  The methods \<open>str.isalnum\<close> and \<open>str.lower\<close> are Python's own; they are the parameters
  \<open>isalnum\<close> and \<open>lower\<close>, over any type \<open>'c\<close> of characters (\<open>lower\<close> returns a string,
  as it does in Python). \<open>cleaned\<close> is
  \<open>''.join(char.lower() for char in text if char.isalnum())\<close>.
\<close>

definition cleaned :: "('c \<Rightarrow> bool) \<Rightarrow> ('c \<Rightarrow> 'c list) \<Rightarrow> 'c list \<Rightarrow> 'c list" where
  "cleaned isalnum lower text = concat (map lower (filter isalnum text))"

definition is_palindrome :: "('c \<Rightarrow> bool) \<Rightarrow> ('c \<Rightarrow> 'c list) \<Rightarrow> 'c list \<Rightarrow> bool" where
  "is_palindrome isalnum lower text =
     (let c = cleaned isalnum lower text in c = rev c)"

text \<open>The two methods on the ASCII characters, for the examples.\<close>

definition ascii_isalnum :: "char \<Rightarrow> bool" where
  "ascii_isalnum c =
     (let n = of_char c :: nat
      in (48 \<le> n \<and> n \<le> 57) \<or> (65 \<le> n \<and> n \<le> 90) \<or> (97 \<le> n \<and> n \<le> 122))"

definition ascii_lower :: "char \<Rightarrow> string" where
  "ascii_lower c =
     (let n = of_char c :: nat
      in if 65 \<le> n \<and> n \<le> 90 then [char_of (n + 32)] else [c])"

text \<open>\<open>find_factors\<close>: \<open>range(1, n + 1)\<close> is \<open>[1..n]\<close>; \<open>%\<close> on a positive divisor is \<open>mod\<close>.\<close>

definition find_factors :: "'f pyval \<Rightarrow> 'f error + int list" where
  "find_factors n =
     (if \<not> isinstance_int n then Inl MustBeInteger
      else if int_val n \<le> 0 then Inl MustBePositive
      else Inr (fold (\<lambda>i factors. if int_val n mod i = 0 then factors @ [i] else factors)
                  [1 .. int_val n] []))"

text \<open>
  \<open>are_anagrams\<close>: a dictionary is a map; \<open>freq.get(char, 0)\<close> reads \<open>0\<close> at a missing
  key. \<open>count_chars\<close> is the loop \<open>for char in s: freq[char] = freq.get(char, 0) + 1\<close>.
\<close>

fun count_chars :: "'c list \<Rightarrow> ('c \<rightharpoonup> int) \<Rightarrow> ('c \<rightharpoonup> int)" where
  "count_chars [] freq = freq"
| "count_chars (char # rest) freq =
     count_chars rest (freq(char \<mapsto> (case freq char of None \<Rightarrow> 0 | Some k \<Rightarrow> k) + 1))"

definition are_anagrams ::
  "('c \<Rightarrow> bool) \<Rightarrow> ('c \<Rightarrow> 'c list) \<Rightarrow> 'c list \<Rightarrow> 'c list \<Rightarrow> bool" where
  "are_anagrams isalnum lower str1 str2 =
     (let s1 = cleaned isalnum lower str1;
          s2 = cleaned isalnum lower str2
      in if s1 = [] \<or> s2 = [] then False
         else count_chars s1 Map.empty = count_chars s2 Map.empty)"

text \<open>
  The character-frequency map of a string in the specification's words: its keys are
  the characters that occur in the string, each with the number of its occurrences.
\<close>

definition frequency_map :: "'c list \<Rightarrow> ('c \<rightharpoonup> int)" where
  "frequency_map s = (\<lambda>c. if c \<in> set s then Some (int (count_list s c)) else None)"

text \<open>
  \<open>get_permutations\<close>: the outer loop over the indices and the inner loop over the
  permutations of the remaining items both append to \<open>perms\<close>. The recursive call is on
  a list one shorter.
\<close>

function get_permutations :: "'a list \<Rightarrow> 'a list list" where
  "get_permutations items =
     (if length items \<le> 1 then [items]
      else fold (\<lambda>i perms.
                   fold (\<lambda>p perms. perms @ [(items ! i) # p])
                     (get_permutations (take i items @ drop (i + 1) items)) perms)
             [0 ..< length items] [])"
  by pat_completeness auto
termination
  by (relation "measure length") auto

declare get_permutations.simps [simp del]

section \<open>The permutation enumeration\<close>

lemma fold_append_cons:
  "fold (\<lambda>p perms. perms @ [c # p]) ps = (\<lambda>acc. acc @ map ((#) c) ps)"
proof
  fix acc show "fold (\<lambda>p perms. perms @ [c # p]) ps acc = acc @ map ((#) c) ps"
    by (induction ps arbitrary: acc) simp_all
qed

lemma fold_append_blocks:
  "fold (\<lambda>i perms. perms @ f i) js acc = acc @ concat (map f js)"
  by (induction js arbitrary: acc) simp_all

lemma get_permutations_unfold:
  "get_permutations items =
     (if length items \<le> 1 then [items]
      else concat (map (\<lambda>i. map ((#) (items ! i))
                           (get_permutations (take i items @ drop (Suc i) items)))
                     [0 ..< length items]))"
  by (subst get_permutations.simps) (simp add: fold_append_cons fold_append_blocks)

lemma mset_remove_nth:
  "i < length xs \<Longrightarrow> add_mset (xs ! i) (mset (take i xs @ drop (Suc i) xs)) = mset xs"
  by (metis add_mset_add_single append_take_drop_id Cons_nth_drop_Suc mset.simps(2) mset_append union_mset_add_mset_right)

lemma length_get_permutations: "length (get_permutations xs) = fact (length xs)"
proof (induction xs rule: length_induct)
  case (1 xs)
  show ?case
  proof (cases "length xs \<le> 1")
    case True
    then have "length xs = 0 \<or> length xs = 1" by arith
    then show ?thesis using True
      by (subst get_permutations_unfold) auto
  next
    case False
    have blk: "length (get_permutations (take i xs @ drop (Suc i) xs)) = fact (length xs - 1)"
      if "i < length xs" for i
    proof -
      have "length (take i xs @ drop (Suc i) xs) = length xs - 1" using that by simp
      moreover have "length (take i xs @ drop (Suc i) xs) < length xs" using that by simp
      ultimately show ?thesis using 1 by metis
    qed
    have "length (get_permutations xs) =
            sum_list (map (\<lambda>i. length (get_permutations (take i xs @ drop (Suc i) xs)))
                        [0 ..< length xs])"
      using False by (subst get_permutations_unfold) (simp add: length_concat comp_def)
    also have "\<dots> = sum_list (map (\<lambda>i. fact (length xs - 1)) [0 ..< length xs])"
      by (rule arg_cong[where f = sum_list], rule map_cong) (simp_all add: blk)
    also have "\<dots> = length xs * fact (length xs - 1)"
      by (simp add: sum_list_triv)
    also have "\<dots> = fact (length xs)"
      using False by (cases "length xs") simp_all
    finally show ?thesis .
  qed
qed

lemma set_get_permutations: "set (get_permutations xs) = {p. mset p = mset xs}"
proof (induction xs rule: length_induct)
  case (1 xs)
  show ?case
  proof (cases "length xs \<le> 1")
    case True
    then have "xs = [] \<or> (\<exists>x. xs = [x])"
      by (cases xs) auto
    then show ?thesis
      by (subst get_permutations_unfold) (auto simp: mset_single_iff_right)
  next
    case False
    have IH: "set (get_permutations (take i xs @ drop (Suc i) xs))
                = {q. mset q = mset (take i xs @ drop (Suc i) xs)}"
      if "i < length xs" for i
      using 1 that by simp
    have unf: "set (get_permutations xs) =
                 (\<Union>i \<in> {0 ..< length xs}. (#) (xs ! i) ` {q. mset q = mset (take i xs @ drop (Suc i) xs)})"
      using False IH by (subst get_permutations_unfold) auto
    show ?thesis
    proof (intro set_eqI iffI)
      fix p assume "p \<in> set (get_permutations xs)"
      then obtain i q where i: "i < length xs" and p: "p = xs ! i # q"
        and q: "mset q = mset (take i xs @ drop (Suc i) xs)"
        unfolding unf by auto
      then have "mset p = add_mset (xs ! i) (mset (take i xs @ drop (Suc i) xs))" by simp
      then show "p \<in> {p. mset p = mset xs}" using mset_remove_nth[OF i] by simp
    next
      fix p assume "p \<in> {p. mset p = mset xs}"
      then have m: "mset p = mset xs" by simp
      with False obtain y q where p: "p = y # q"
        by (cases p) auto
      then have "y \<in> set xs" using m by (metis list.set_intros(1) mset_eq_setD)
      then obtain i where i: "i < length xs" and y: "xs ! i = y"
        by (auto simp: in_set_conv_nth)
      have "add_mset y (mset q) = add_mset y (mset (take i xs @ drop (Suc i) xs))"
        using m p mset_remove_nth[OF i] y by simp
      then have "mset q = mset (take i xs @ drop (Suc i) xs)" by simp
      then show "p \<in> set (get_permutations xs)"
        unfolding unf using i y p by auto
    qed
  qed
qed

lemma concat_blocks_not_distinct:
  assumes "i < j" "j < n" "x \<in> set (f i)" "x \<in> set (f j)"
  shows "\<not> distinct (concat (map f [0 ..< n]))"
proof -
  have "[0 ..< n] = [0 ..< j] @ [j ..< n]"
    using assms(2) upt_add_eq_append[of 0 j "n - j"] by simp
  then have "[0 ..< n] = [0 ..< j] @ j # [Suc j ..< n]"
    using assms(2) by (simp add: upt_conv_Cons)
  moreover have "x \<in> set (concat (map f [0 ..< j]))"
    using assms(1,3) by auto
  ultimately show ?thesis using assms(4) by auto
qed

lemma get_permutations_not_distinct:
  assumes "\<not> distinct xs"
  shows "\<not> distinct (get_permutations xs)"
proof -
  from assms obtain i j where ij: "i < j" "j < length xs" "xs ! i = xs ! j"
    by (metis distinct_conv_nth nat_neq_iff)
  then have i: "i < length xs" by simp
  have len: "\<not> length xs \<le> 1" using ij by simp
  let ?r = "\<lambda>k. take k xs @ drop (Suc k) xs"
  let ?p = "xs ! i # ?r i"
  have "add_mset (xs ! i) (mset (?r i)) = add_mset (xs ! i) (mset (?r j))"
    using mset_remove_nth[OF i] mset_remove_nth[OF ij(2)] ij(3) by simp
  then have "mset (?r i) = mset (?r j)" by simp
  then have "?r i \<in> set (get_permutations (?r j))"
    by (simp add: set_get_permutations)
  then have pj: "?p \<in> set (map ((#) (xs ! j)) (get_permutations (?r j)))"
    using ij(3) by simp
  have pi: "?p \<in> set (map ((#) (xs ! i)) (get_permutations (?r i)))"
    by (simp add: set_get_permutations)
  show ?thesis
    using len concat_blocks_not_distinct[OF ij(1,2) pi pj]
    by (subst get_permutations_unfold) simp
qed

section \<open>The data processor\<close>

lemma add_numbers_run:
  "add_numbers numbers self =
     (if list_all isinstance_int_float numbers
      then (Inr (), self\<lparr>data := data self @ numbers\<rparr>)
      else (Inl (InvalidNumber (hd (dropWhile isinstance_int_float numbers))),
            self\<lparr>data := data self @ takeWhile isinstance_int_float numbers\<rparr>))"
  by (induction numbers arbitrary: self) simp_all

lemma upt_0_Suc_shift: "[0 ..< Suc n] = 0 # map Suc [0 ..< n]"
  by (simp add: upt_conv_Cons map_Suc_upt del: upt_Suc)

lemma running_average_loop_ok:
  "(\<And>k. k < length xs \<Longrightarrow>
      \<exists>s. python_sum ops t (take (Suc k) xs) = Inr s \<and> truediv ops s (i + k) = Inr (m k))
   \<Longrightarrow> running_average_loop ops xs i t res = Inr (res @ map m [0 ..< length xs])"
proof (induction xs arbitrary: t i res m)
  case Nil
  then show ?case by simp
next
  case (Cons x xs)
  from Cons.prems[of 0] obtain s0 where s0: "add ops t x = Inr s0" "truediv ops s0 i = Inr (m 0)"
    by (auto split: sum.splits)
  have "\<exists>s. python_sum ops s0 (take (Suc k) xs) = Inr s
            \<and> truediv ops s (Suc i + k) = Inr ((m \<circ> Suc) k)" if "k < length xs" for k
    using Cons.prems[of "Suc k"] that s0 by simp
  then have "running_average_loop ops xs (Suc i) s0 (res @ [m 0])
               = Inr ((res @ [m 0]) @ map (m \<circ> Suc) [0 ..< length xs])"
    by (rule Cons.IH)
  then show ?case
    using s0 by (simp add: upt_0_Suc_shift del: upt_Suc)
qed

lemma running_average_loop_error:
  "k < length xs \<Longrightarrow>
   (case python_sum ops t (take (Suc k) xs) of Inl e' \<Rightarrow> Inl e' | Inr s \<Rightarrow> truediv ops s (i + k))
     = Inl e \<Longrightarrow>
   (\<And>j. j < k \<Longrightarrow>
      \<exists>a. (case python_sum ops t (take (Suc j) xs) of Inl e' \<Rightarrow> Inl e' | Inr s \<Rightarrow> truediv ops s (i + j))
            = Inr a) \<Longrightarrow>
   running_average_loop ops xs i t res = Inl e"
proof (induction xs arbitrary: t i res k)
  case Nil
  then show ?case by simp
next
  case (Cons x xs)
  show ?case
  proof (cases k)
    case 0
    with Cons.prems(2) show ?thesis
      by (auto split: sum.splits)
  next
    case (Suc k')
    from Cons.prems(3)[of 0] Suc obtain s0 a0 where
      s0: "add ops t x = Inr s0" "truediv ops s0 i = Inr a0"
      by (auto split: sum.splits)
    have "running_average_loop ops xs (Suc i) s0 (res @ [a0]) = Inl e"
    proof (rule Cons.IH[of k'])
      show "k' < length xs" using Cons.prems(1) Suc by simp
      show "(case python_sum ops s0 (take (Suc k') xs) of Inl e' \<Rightarrow> Inl e'
             | Inr s \<Rightarrow> truediv ops s (Suc i + k')) = Inl e"
        using Cons.prems(2) Suc s0 by (simp cong: sum.case_cong)
      show "\<exists>a. (case python_sum ops s0 (take (Suc j) xs) of Inl e' \<Rightarrow> Inl e'
                 | Inr s \<Rightarrow> truediv ops s (Suc i + j)) = Inr a" if "j < k'" for j
        using Cons.prems(3)[of "Suc j"] that Suc s0 by (simp cong: sum.case_cong)
    qed
    then show ?thesis using s0 by simp
  qed
qed

lemma running_average_empty:
  "data self = [] \<Longrightarrow> fst (running_average ops self) = Inr []"
  by (simp add: running_average_def)

lemma running_average_ok:
  assumes "\<And>i. i < length (data self) \<Longrightarrow> prefix_mean ops (data self) (i + 1) = Inr (m i)"
  shows "fst (running_average ops self) = Inr (map m [0 ..< length (data self)])"
proof -
  have "running_average_loop ops (data self) 1 (zero_int ops) []
          = Inr ([] @ map m [0 ..< length (data self)])"
  proof (rule running_average_loop_ok)
    fix k assume "k < length (data self)"
    from assms[OF this]
    show "\<exists>s. python_sum ops (zero_int ops) (take (Suc k) (data self)) = Inr s
              \<and> truediv ops s (1 + k) = Inr (m k)"
      by (auto simp: prefix_mean_def split: sum.splits)
  qed
  then show ?thesis by (simp add: running_average_def del: upt_Suc)
qed

lemma running_average_error:
  assumes "k < length (data self)" "prefix_mean ops (data self) (k + 1) = Inl e"
    and "\<And>i. i < k \<Longrightarrow> \<exists>a. prefix_mean ops (data self) (i + 1) = Inr a"
  shows "fst (running_average ops self) = Inl e"
proof -
  have "running_average_loop ops (data self) 1 (zero_int ops) [] = Inl e"
  proof (rule running_average_loop_error[of k])
    show "k < length (data self)" by (rule assms(1))
    show "(case python_sum ops (zero_int ops) (take (Suc k) (data self)) of Inl e' \<Rightarrow> Inl e'
           | Inr s \<Rightarrow> truediv ops s (1 + k)) = Inl e"
      using assms(2) by (simp add: prefix_mean_def cong: sum.case_cong)
    show "\<exists>a. (case python_sum ops (zero_int ops) (take (Suc j) (data self)) of Inl e' \<Rightarrow> Inl e'
               | Inr s \<Rightarrow> truediv ops s (1 + j)) = Inr a" if "j < k" for j
      using assms(3)[OF that] by (simp add: prefix_mean_def cong: sum.case_cong)
  qed
  moreover have "data self \<noteq> []" using assms(1) by auto
  ultimately show ?thesis by (simp add: running_average_def)
qed

lemma python_sum_ints:
  "python_sum (python_operators fl) (PInt a) (map PInt xs) = Inr (PInt (a + sum_list xs))"
  by (induction xs arbitrary: a) (simp_all add: python_operators_def add.assoc)

lemma prefix_mean_ints:
  "prefix_mean (python_operators fl) (map PInt xs) (Suc i) =
     (if float_overflow_bound \<le> \<bar>real_of_int (sum_list (take (Suc i) xs))\<bar> / real (Suc i)
      then Inl OverflowError
      else Inr (PFloat (nearest fl (real_of_int (sum_list (take (Suc i) xs)) / real (Suc i)))))"
proof -
  have "python_sum (python_operators fl) (zero_int (python_operators fl))
          (take (Suc i) (map PInt xs)) = Inr (PInt (sum_list (take (Suc i) xs)))"
    using python_sum_ints[of fl 0 "take (Suc i) xs"]
    by (simp add: python_operators_def take_map)
  then show ?thesis
    by (simp add: prefix_mean_def python_operators_def int_truediv_def
             del: take_Suc_Cons of_nat_Suc)
qed

lemma fold_peaks:
  "fold (\<lambda>i peaks. if P i then (if Q i then peaks @ [g i] else peaks) else peaks) js acc =
     acc @ map g (filter (\<lambda>i. P i \<and> Q i) js)"
  by (induction js arbitrary: acc) simp_all

lemma find_peaks_eq:
  "fst (find_peaks threshold self) =
     (if length (data self) < 3 then []
      else map (\<lambda>i. (i, data self ! i))
             (filter (\<lambda>i. data self ! i > data self ! (i - 1) \<and> data self ! i > data self ! (i + 1)
                          \<and> (case threshold of None \<Rightarrow> True | Some t \<Rightarrow> data self ! i > t))
                [1 ..< length (data self) - 1]))"
  by (simp add: find_peaks_def fold_peaks conj_assoc del: upt_Suc)

lemma find_peaks_threshold_filter:
  "fst (find_peaks (Some t) self) = filter (\<lambda>(i, v). v > t) (fst (find_peaks None self))"
  by (simp add: find_peaks_eq filter_map comp_def conj_commute conj_left_commute del: upt_Suc)

lemma snd_running_average: "snd (running_average ops self) = self"
  by (simp add: running_average_def)

lemma snd_find_peaks: "snd (find_peaks threshold self) = self"
  by (simp add: find_peaks_def)

section \<open>The solver\<close>

lemma count_chars_eq:
  "count_chars s freq =
     (\<lambda>c. if c \<in> set s
          then Some ((case freq c of None \<Rightarrow> 0 | Some k \<Rightarrow> k) + int (count_list s c))
          else freq c)"
  by (induction s arbitrary: freq) (auto simp: fun_eq_iff)

lemma count_chars_frequency_map: "count_chars s Map.empty = frequency_map s"
  by (auto simp: count_chars_eq frequency_map_def fun_eq_iff)

lemma frequency_map_eq_iff: "frequency_map s = frequency_map t \<longleftrightarrow> mset s = mset t"
proof
  assume eq: "frequency_map s = frequency_map t"
  show "mset s = mset t"
  proof (rule multiset_eqI)
    fix c
    have "frequency_map s c = frequency_map t c" using eq by simp
    then have "count_list s c = count_list t c"
      by (auto simp: frequency_map_def count_list_0_iff split: if_splits)
    then show "count (mset s) c = count (mset t) c" by (simp add: count_mset)
  qed
next
  assume eq: "mset s = mset t"
  then have "set s = set t" by (rule mset_eq_setD)
  moreover have "count_list s c = count_list t c" for c
    using eq by (metis count_mset)
  ultimately show "frequency_map s = frequency_map t"
    by (auto simp: frequency_map_def fun_eq_iff)
qed

lemma are_anagrams_eq:
  "are_anagrams isalnum lower str1 str2 \<longleftrightarrow>
     cleaned isalnum lower str1 \<noteq> [] \<and> cleaned isalnum lower str2 \<noteq> []
     \<and> frequency_map (cleaned isalnum lower str1) = frequency_map (cleaned isalnum lower str2)"
  by (simp add: are_anagrams_def Let_def count_chars_frequency_map)

lemma fold_factors:
  "fold (\<lambda>i factors. if P i then factors @ [i] else factors) js acc = acc @ filter P js"
  by (induction js arbitrary: acc) simp_all

lemma find_factors_positive:
  "0 < k \<Longrightarrow> find_factors (PInt k) = Inr (filter (\<lambda>i. i dvd k) [1 .. k])"
  by (simp add: find_factors_def fold_factors mod_eq_0_iff_dvd)

lemma find_factors_error_iff:
  "(\<exists>e. find_factors n = Inl e) \<longleftrightarrow> \<not> isinstance_int n \<or> (\<exists>k. n = PInt k \<and> k \<le> 0)"
  by (cases n) (auto simp: find_factors_def)

section \<open>The claims of the specification\<close>

subsection \<open>C1: a failing \<open>add_numbers\<close> call\<close>

text \<open>
  Claim C1 as the specification states it: a call of \<open>add_numbers\<close> (\<open>ingest\<close>) whose
  list holds a non-numeric element fails and leaves the stored sequence unchanged. The
  code appends each element as soon as it has checked it: started on \<open>[0]\<close> with
  \<open>[1, 'x', 2]\<close>, the call raises for \<open>'x'\<close> and leaves \<open>[0, 1]\<close>.
\<close>

theorem add_numbers_partial_counterexample:
  "fst (add_numbers [PInt 1, PStr ''x'', PInt 2] \<lparr>data = [PInt 0 :: unit pyval]\<rparr>)
     = Inl (InvalidNumber (PStr ''x''))
   \<and> snd (add_numbers [PInt 1, PStr ''x'', PInt 2] \<lparr>data = [PInt 0 :: unit pyval]\<rparr>)
     = \<lparr>data = [PInt 0, PInt 1]\<rparr>
   \<and> snd (add_numbers [PInt 1, PStr ''x'', PInt 2] \<lparr>data = [PInt 0 :: unit pyval]\<rparr>)
     \<noteq> \<lparr>data = [PInt 0]\<rparr>"
  by simp

text \<open>
  Claim C1 as amended: a call whose list holds a non-numeric element fails with the
  \<open>ValueError\<close> that names the first such element, and the stored sequence is the
  one before the call followed by the elements of the call that precede that element,
  in order; nothing from that element on is stored. A call whose elements are all
  numeric returns normally and appends them all.
\<close>

theorem add_numbers_valid_prefix:
  "add_numbers numbers self =
     (if list_all isinstance_int_float numbers
      then (Inr (), self\<lparr>data := data self @ numbers\<rparr>)
      else (Inl (InvalidNumber (hd (dropWhile isinstance_int_float numbers))),
            self\<lparr>data := data self @ takeWhile isinstance_int_float numbers\<rparr>))"
  by (rule add_numbers_run)

subsection \<open>C2: the order of enumeration\<close>

text \<open>
  Claim C2: on a list of length at most 1, \<open>get_permutations\<close> returns the list that
  holds only its input. On a longer list it returns, for each index \<open>i\<close> in order, the
  permutations of the input without position \<open>i\<close>, each with \<open>items[i]\<close> put in front.
  On \<open>['A', 'B', 'C']\<close> the result has length 6, holds every ordering exactly once
  and begins with \<open>['A', 'B', 'C']\<close>.
\<close>

theorem get_permutations_enumeration:
  "get_permutations items =
     (if length items \<le> 1 then [items]
      else concat (map (\<lambda>i. map (\<lambda>p. items ! i # p)
                           (get_permutations (take i items @ drop (i + 1) items)))
                     [0 ..< length items]))
   \<and> get_permutations ''ABC'' = [''ABC'', ''ACB'', ''BAC'', ''BCA'', ''CAB'', ''CBA'']
   \<and> length (get_permutations ''ABC'') = 6
   \<and> distinct (get_permutations ''ABC'')
   \<and> set (get_permutations ''ABC'') = {p. mset p = mset ''ABC''}
   \<and> hd (get_permutations ''ABC'') = ''ABC''"
proof -
  have abc: "get_permutations ''ABC'' = [''ABC'', ''ACB'', ''BAC'', ''BCA'', ''CAB'', ''CBA'']"
    by code_simp
  have "get_permutations items =
     (if length items \<le> 1 then [items]
      else concat (map (\<lambda>i. map (\<lambda>p. items ! i # p)
                           (get_permutations (take i items @ drop (i + 1) items)))
                     [0 ..< length items]))"
    using get_permutations_unfold[of items] by simp
  moreover have "distinct (get_permutations ''ABC'')"
    unfolding abc by simp
  moreover have "length (get_permutations ''ABC'') = 6" "hd (get_permutations ''ABC'') = ''ABC''"
    unfolding abc by simp_all
  ultimately show ?thesis
    using abc set_get_permutations[of "''ABC''"] by blast
qed

subsection \<open>C3: \<open>find_peaks\<close>\<close>

text \<open>
  Claim C3: on a stored sequence of fewer than 3 elements \<open>find_peaks\<close> returns the
  empty list, with no error. Otherwise it returns, by ascending index, the pairs
  \<open>(i, data[i])\<close> of the interior indices \<open>i\<close> (neither the first nor the last) whose
  element is strictly greater than both neighbours and, when a threshold is given,
  strictly greater than the threshold. The last conjunct says the same by membership:
  a pair is in the result exactly when its index is interior, its value is the element
  there, and the element passes the three comparisons.
\<close>

theorem find_peaks_spec:
  "(length (data self) < 3 \<longrightarrow> fst (find_peaks threshold self) = [])
   \<and> (3 \<le> length (data self) \<longrightarrow>
        fst (find_peaks threshold self) =
          map (\<lambda>i. (i, data self ! i))
            (filter (\<lambda>i. data self ! i > data self ! (i - 1)
                         \<and> data self ! i > data self ! (i + 1)
                         \<and> (case threshold of None \<Rightarrow> True | Some t \<Rightarrow> data self ! i > t))
               [1 ..< length (data self) - 1]))
   \<and> sorted_wrt (<) (map fst (fst (find_peaks threshold self)))
   \<and> ((i, v) \<in> set (fst (find_peaks threshold self)) \<longleftrightarrow>
        1 \<le> i \<and> i + 1 < length (data self) \<and> v = data self ! i
        \<and> v > data self ! (i - 1) \<and> v > data self ! (i + 1)
        \<and> (case threshold of None \<Rightarrow> True | Some t \<Rightarrow> v > t))"
proof -
  let ?P = "\<lambda>i. data self ! i > data self ! (i - 1) \<and> data self ! i > data self ! (i + 1)
                \<and> (case threshold of None \<Rightarrow> True | Some t \<Rightarrow> data self ! i > t)"
  have short: "length (data self) < 3 \<longrightarrow> fst (find_peaks threshold self) = []"
    by (simp add: find_peaks_eq)
  have long: "3 \<le> length (data self) \<longrightarrow>
        fst (find_peaks threshold self) =
          map (\<lambda>i. (i, data self ! i)) (filter ?P [1 ..< length (data self) - 1])"
    by (simp add: find_peaks_eq)
  have "sorted_wrt (<) (filter ?P [1 ..< length (data self) - 1])"
    by (rule sorted_wrt_filter) (rule sorted_wrt_upt)
  then have srt: "sorted_wrt (<) (map fst (fst (find_peaks threshold self)))"
    by (simp add: find_peaks_eq comp_def del: upt_Suc)
  have mem: "(i, v) \<in> set (fst (find_peaks threshold self)) \<longleftrightarrow>
        1 \<le> i \<and> i + 1 < length (data self) \<and> v = data self ! i
        \<and> v > data self ! (i - 1) \<and> v > data self ! (i + 1)
        \<and> (case threshold of None \<Rightarrow> True | Some t \<Rightarrow> v > t)"
    by (cases "length (data self) < 3") (auto simp: find_peaks_eq simp del: upt_Suc)
  show ?thesis using short long srt mem by blast
qed

theorem find_peaks_spec_witness:
  "length (data \<lparr>data = [5, 9 :: int]\<rparr>) < 3
   \<and> fst (find_peaks None \<lparr>data = [5, 9 :: int]\<rparr>) = []
   \<and> 3 \<le> length (data \<lparr>data = [1, 3, 2, 4, 1, 5, 2, 6, 4 :: int]\<rparr>)
   \<and> fst (find_peaks (Some 3) \<lparr>data = [1, 3, 2, 4, 1, 5, 2, 6, 4 :: int]\<rparr>)
       = [(3, 4), (5, 5), (7, 6)]"
proof -
  let ?s = "\<lparr>data = [5, 9 :: int]\<rparr>"
  let ?l = "\<lparr>data = [1, 3, 2, 4, 1, 5, 2, 6, 4 :: int]\<rparr>"
  have h1: "length (data ?s) < 3" by simp
  have h2: "3 \<le> length (data ?l)" by simp
  from find_peaks_spec[of ?s None] h1
  have r1: "fst (find_peaks None ?s) = []" by blast
  from find_peaks_spec[of ?l "Some 3"] h2
  have "fst (find_peaks (Some 3) ?l) =
          map (\<lambda>i. (i, data ?l ! i))
            (filter (\<lambda>i. data ?l ! i > data ?l ! (i - 1) \<and> data ?l ! i > data ?l ! (i + 1)
                         \<and> (case Some 3 of None \<Rightarrow> True | Some t \<Rightarrow> data ?l ! i > t))
               [1 ..< length (data ?l) - 1])"
    by blast
  also have "\<dots> = [(3, 4), (5, 5), (7, 6)]"
    by code_simp
  finally show ?thesis using h1 h2 r1 by blast
qed

subsection \<open>C4: \<open>running_average\<close>\<close>

text \<open>
  Claim C4 as the specification states it: on every stored numeric sequence that is
  not empty, \<open>running_average\<close> returns a list as long as the sequence. The \<open>int\<close>
  \<open>10 ** 400\<close> passes \<open>add_numbers\<close> and is stored; on the sequence that holds it alone,
  \<open>total / i\<close> raises \<open>OverflowError\<close> and the call returns no list.
\<close>

theorem running_average_overflow_counterexample:
  "snd (add_numbers [PInt (10 ^ 400)] init) = \<lparr>data = [PInt (10 ^ 400) :: real pyval]\<rparr>
   \<and> fst (running_average (python_operators unrounded) \<lparr>data = [PInt (10 ^ 400)]\<rparr>)
       = Inl OverflowError"
  by (simp add: init_def running_average_def python_operators_def int_truediv_def
        float_overflow_bound_def)

text \<open>
  Claim C4 as amended: \<open>running_average\<close> returns the empty list on an empty
  sequence. Otherwise, when each quotient \<open>sum(S[0..i]) / (i + 1)\<close> can be computed (the
  sum added from the left starting from the \<open>int\<close> \<open>0\<close> with Python's \<open>+\<close>, the quotient
  taken with Python's true division, neither raising), it returns a list as long as
  the sequence whose entry \<open>i\<close> is that quotient. When one of them raises, the call
  raises the error of the first position where that happens. On a sequence of \<open>int\<close>
  objects the sum is exact and the quotient is rounded once: entry \<open>i\<close> is the
  arithmetic mean of the first \<open>i + 1\<close> elements rounded to the nearest \<open>float\<close>, and
  the call raises \<open>OverflowError\<close> exactly when one of these means has a magnitude
  of \<open>2 ^ 1024 - 2 ^ 970\<close> or more.
\<close>

theorem running_average_spec:
  "(data self = [] \<longrightarrow> fst (running_average ops self) = Inr [])
   \<and> ((\<forall>i < length (data self). prefix_mean ops (data self) (i + 1) = Inr (m i))
        \<longrightarrow> fst (running_average ops self) = Inr (map m [0 ..< length (data self)]))
   \<and> (k < length (data self) \<and> prefix_mean ops (data self) (k + 1) = Inl e
        \<and> (\<forall>i < k. \<exists>a. prefix_mean ops (data self) (i + 1) = Inr a)
        \<longrightarrow> fst (running_average ops self) = Inl e)
   \<and> ((\<forall>i < length xs.
          \<bar>real_of_int (sum_list (take (i + 1) xs))\<bar> / real (i + 1) < float_overflow_bound)
        \<longrightarrow> fst (running_average (python_operators (fl :: 'f float_arith)) \<lparr>data = map PInt xs\<rparr>)
              = Inr (map (\<lambda>i. PFloat (nearest fl
                                 (real_of_int (sum_list (take (i + 1) xs)) / real (i + 1))))
                       [0 ..< length xs]))
   \<and> ((\<exists>i < length xs.
          float_overflow_bound \<le> \<bar>real_of_int (sum_list (take (i + 1) xs))\<bar> / real (i + 1))
        \<longrightarrow> fst (running_average (python_operators (fl :: 'f float_arith)) \<lparr>data = map PInt xs\<rparr>)
              = Inl OverflowError)"
proof -
  let ?py = "python_operators (fl :: 'f float_arith)"
  let ?q = "\<lambda>i. \<bar>real_of_int (sum_list (take (i + 1) xs))\<bar> / real (i + 1)"
  have c1: "data self = [] \<longrightarrow> fst (running_average ops self) = Inr []"
    by (simp add: running_average_empty)
  have c2: "(\<forall>i < length (data self). prefix_mean ops (data self) (i + 1) = Inr (m i))
        \<longrightarrow> fst (running_average ops self) = Inr (map m [0 ..< length (data self)])"
    using running_average_ok[of self ops m] by blast
  have c3: "k < length (data self) \<and> prefix_mean ops (data self) (k + 1) = Inl e
        \<and> (\<forall>i < k. \<exists>a. prefix_mean ops (data self) (i + 1) = Inr a)
        \<longrightarrow> fst (running_average ops self) = Inl e"
    using running_average_error[of k self ops e] by blast
  have c4: "fst (running_average ?py \<lparr>data = map PInt xs\<rparr>)
              = Inr (map (\<lambda>i. PFloat (nearest fl
                                 (real_of_int (sum_list (take (i + 1) xs)) / real (i + 1))))
                       [0 ..< length xs])"
    if ok: "\<forall>i < length xs. ?q i < float_overflow_bound"
  proof -
    let ?s = "\<lparr>data = map PInt xs\<rparr> :: 'f pyval DataProcessor"
    let ?m = "\<lambda>i. PFloat (nearest fl
                      (real_of_int (sum_list (take (i + 1) xs)) / real (i + 1)))"
    have pm: "prefix_mean ?py (data ?s) (i + 1) = Inr (?m i)" if "i < length (data ?s)" for i
    proof -
      from that have "?q i < float_overflow_bound" using ok by simp
      then show ?thesis using prefix_mean_ints[of fl xs i] by simp
    qed
    have "fst (running_average ?py ?s) = Inr (map ?m [0 ..< length (data ?s)])"
      using pm by (rule running_average_ok)
    then show ?thesis by simp
  qed
  have c5: "fst (running_average ?py \<lparr>data = map PInt xs\<rparr>) = Inl OverflowError"
    if bad: "\<exists>i < length xs. float_overflow_bound \<le> ?q i"
  proof -
    define k where "k = (LEAST i. i < length xs \<and> float_overflow_bound \<le> ?q i)"
    from bad have k: "k < length xs \<and> float_overflow_bound \<le> ?q k"
      unfolding k_def by (rule LeastI_ex)
    have below: "\<not> (i < length xs \<and> float_overflow_bound \<le> ?q i)" if "i < k" for i
      using that unfolding k_def by (rule not_less_Least)
    show ?thesis
    proof (rule running_average_error[of k])
      show "k < length (data \<lparr>data = map PInt xs\<rparr>)" using k by simp
      show "prefix_mean ?py (data \<lparr>data = map PInt xs\<rparr>) (k + 1) = Inl OverflowError"
        using k prefix_mean_ints[of fl xs k] by simp
      show "\<exists>a. prefix_mean ?py (data \<lparr>data = map PInt xs\<rparr>) (i + 1) = Inr a" if "i < k" for i
        using below[OF that] that k prefix_mean_ints[of fl xs i] by simp
    qed
  qed
  show ?thesis using c1 c2 c3 c4 c5 by blast
qed

theorem running_average_spec_witness:
  "fst (running_average (python_operators unrounded) \<lparr>data = map PInt [1, 3, 2, 4]\<rparr>)
     = Inr [PFloat 1, PFloat 2, PFloat 2, PFloat (5 / 2)]
   \<and> fst (running_average (python_operators unrounded) \<lparr>data = map PInt [1, 10 ^ 400]\<rparr>)
     = Inl OverflowError
   \<and> data (init :: real pyval DataProcessor) = []
   \<and> fst (running_average (python_operators unrounded) init) = Inr []"
proof -
  let ?py = "python_operators unrounded"
  let ?xs = "[1, 3, 2, 4] :: int list"
  let ?ys = "[1, 10 ^ 400] :: int list"
  have h1: "\<forall>i < length ?xs.
          \<bar>real_of_int (sum_list (take (i + 1) ?xs))\<bar> / real (i + 1) < float_overflow_bound"
    by (simp add: float_overflow_bound_def less_Suc_eq)
  have h2: "\<exists>i < length ?ys.
          float_overflow_bound \<le> \<bar>real_of_int (sum_list (take (i + 1) ?ys))\<bar> / real (i + 1)"
    by (rule exI[of _ 1]) (simp add: float_overflow_bound_def)
  have h3: "data (init :: real pyval DataProcessor) = []" by (simp add: init_def)
  from running_average_spec[of init ?py _ _ _ ?xs unrounded] h1 h3
  have r1: "fst (running_average ?py \<lparr>data = map PInt ?xs\<rparr>)
              = Inr (map (\<lambda>i. PFloat (nearest unrounded
                                 (real_of_int (sum_list (take (i + 1) ?xs)) / real (i + 1))))
                       [0 ..< length ?xs])"
    and r3: "fst (running_average ?py init) = Inr []"
    by blast+
  from running_average_spec[of init ?py _ _ _ ?ys unrounded] h2
  have r2: "fst (running_average ?py \<lparr>data = map PInt ?ys\<rparr>) = Inl OverflowError"
    by blast
  have "map (\<lambda>i. PFloat (nearest unrounded
                     (real_of_int (sum_list (take (i + 1) ?xs)) / real (i + 1))))
          [0 ..< length ?xs] = [PFloat 1, PFloat 2, PFloat 2, PFloat (5 / 2)]"
    by (simp add: unrounded_def upt_rec)
  with r1 r2 r3 h3 show ?thesis by simp
qed

subsection \<open>C5: \<open>find_factors\<close>\<close>

text \<open>
  Claim C5: \<open>find_factors\<close> raises exactly when its argument is not an \<open>int\<close> or is
  at most 0. On a positive \<open>int\<close> it returns the divisors of the argument between 1
  and the argument, in ascending order; \<open>find_factors(28)\<close> is
  \<open>[1, 2, 4, 7, 14, 28]\<close>, and \<open>find_factors(0)\<close> and \<open>find_factors(-3)\<close> raise.
\<close>

theorem find_factors_spec:
  "((\<exists>e. find_factors (n :: 'f pyval) = Inl e) \<longleftrightarrow> \<not> isinstance_int n \<or> (\<exists>k. n = PInt k \<and> k \<le> 0))
   \<and> (0 < k \<longrightarrow> find_factors (PInt k :: 'f pyval) = Inr (filter (\<lambda>i. i dvd k) [1 .. k]))
   \<and> (0 < k \<longrightarrow> (\<exists>fs. find_factors (PInt k :: 'f pyval) = Inr fs \<and> sorted_wrt (<) fs
                      \<and> set fs = {i. 1 \<le> i \<and> i \<le> k \<and> i dvd k}))
   \<and> find_factors (PInt 28 :: 'f pyval) = Inr [1, 2, 4, 7, 14, 28]
   \<and> find_factors (PInt 0 :: 'f pyval) = Inl MustBePositive
   \<and> find_factors (PInt (- 3) :: 'f pyval) = Inl MustBePositive"
proof -
  have "filter (\<lambda>i. i dvd 28) [1 .. 28] = [1, 2, 4, 7, 14, 28::int]"
    by code_simp
  then have ex28: "find_factors (PInt 28 :: 'f pyval) = Inr [1, 2, 4, 7, 14, 28]"
    using find_factors_positive[of 28] by simp
  have srt: "sorted_wrt (<) (filter (\<lambda>i. i dvd k) [1 .. k])"
    by (rule sorted_wrt_filter) (rule sorted_wrt_upto)
  have st: "set (filter (\<lambda>i. i dvd k) [1 .. k]) = {i. 1 \<le> i \<and> i \<le> k \<and> i dvd k}"
    by auto
  have pos: "0 < k \<longrightarrow> find_factors (PInt k :: 'f pyval) = Inr (filter (\<lambda>i. i dvd k) [1 .. k])"
    by (simp add: find_factors_positive)
  have asc: "0 < k \<longrightarrow> (\<exists>fs. find_factors (PInt k :: 'f pyval) = Inr fs \<and> sorted_wrt (<) fs
                      \<and> set fs = {i. 1 \<le> i \<and> i \<le> k \<and> i dvd k})"
    using pos srt st by blast
  have neg: "find_factors (PInt 0 :: 'f pyval) = Inl MustBePositive"
    "find_factors (PInt (- 3) :: 'f pyval) = Inl MustBePositive"
    by (simp_all add: find_factors_def)
  show ?thesis
    using find_factors_error_iff[of n] pos asc ex28 neg by blast
qed

theorem find_factors_spec_witness:
  "\<not> isinstance_int (PStr ''28'' :: unit pyval)
   \<and> (\<exists>e. find_factors (PStr ''28'' :: unit pyval) = Inl e)
   \<and> (0::int) < 12
   \<and> find_factors (PInt 12 :: unit pyval) = Inr [1, 2, 3, 4, 6, 12]"
proof -
  have h1: "\<not> isinstance_int (PStr ''28'' :: unit pyval)" by simp
  have h2: "(0::int) < 12" by simp
  from find_factors_spec[of "PStr ''28'' :: unit pyval" 12] h1 h2
  have "\<exists>e. find_factors (PStr ''28'' :: unit pyval) = Inl e"
    "find_factors (PInt 12 :: unit pyval) = Inr (filter (\<lambda>i. i dvd 12) [1 .. 12])"
    by blast+
  moreover have "filter (\<lambda>i. i dvd 12) [1 .. 12] = [1, 2, 3, 4, 6, 12::int]"
    by code_simp
  ultimately show ?thesis using h1 h2 by simp
qed

subsection \<open>C6: \<open>are_anagrams\<close>\<close>

text \<open>
  Claim C6: \<open>are_anagrams\<close> is false when either cleaned string is empty (so two
  empty strings are not anagrams), and otherwise it is true exactly when the two
  cleaned strings have the same character-frequency map: the same keys with the same
  counts. The dictionary the loop builds is that frequency map, and two strings have
  the same frequency map exactly when they hold the same characters with the same
  multiplicities. \<open>listen\<close> and \<open>silent\<close> are anagrams.
\<close>

theorem are_anagrams_spec:
  "(are_anagrams isalnum lower str1 str2 \<longleftrightarrow>
      cleaned isalnum lower str1 \<noteq> [] \<and> cleaned isalnum lower str2 \<noteq> []
      \<and> frequency_map (cleaned isalnum lower str1) = frequency_map (cleaned isalnum lower str2))
   \<and> (cleaned isalnum lower str1 = [] \<or> cleaned isalnum lower str2 = []
        \<longrightarrow> \<not> are_anagrams isalnum lower str1 str2)
   \<and> count_chars (s :: 'c list) Map.empty = frequency_map s
   \<and> (frequency_map s = frequency_map (t :: 'c list) \<longleftrightarrow> mset s = mset t)
   \<and> \<not> are_anagrams ascii_isalnum ascii_lower '''' ''''
   \<and> are_anagrams ascii_isalnum ascii_lower ''listen'' ''silent''"
proof -
  have iff: "are_anagrams isalnum lower str1 str2 \<longleftrightarrow>
      cleaned isalnum lower str1 \<noteq> [] \<and> cleaned isalnum lower str2 \<noteq> []
      \<and> frequency_map (cleaned isalnum lower str1) = frequency_map (cleaned isalnum lower str2)"
    by (rule are_anagrams_eq)
  have empty: "\<not> are_anagrams ascii_isalnum ascii_lower '''' ''''"
    by (simp add: are_anagrams_eq cleaned_def)
  have l: "cleaned ascii_isalnum ascii_lower ''listen'' = ''listen''" by code_simp
  have r: "cleaned ascii_isalnum ascii_lower ''silent'' = ''silent''" by code_simp
  have "mset ''listen'' = mset ''silent''" by simp
  then have "frequency_map ''listen'' = frequency_map ''silent''"
    by (simp only: frequency_map_eq_iff)
  then have ex: "are_anagrams ascii_isalnum ascii_lower ''listen'' ''silent''"
    by (simp add: are_anagrams_eq l r)
  show ?thesis
    using iff empty ex count_chars_frequency_map[of s] frequency_map_eq_iff[of s t]
    by blast
qed

theorem are_anagrams_spec_witness:
  "cleaned ascii_isalnum ascii_lower ''?!'' = []
   \<and> \<not> are_anagrams ascii_isalnum ascii_lower ''?!'' ''abc''
   \<and> are_anagrams ascii_isalnum ascii_lower ''Dormitory'' ''dirty room''
   \<and> \<not> are_anagrams ascii_isalnum ascii_lower ''aab'' ''abb''"
proof -
  have h: "cleaned ascii_isalnum ascii_lower ''?!'' = []" by code_simp
  from are_anagrams_spec[of ascii_isalnum ascii_lower "''?!''" "''abc''"] h
  have n1: "\<not> are_anagrams ascii_isalnum ascii_lower ''?!'' ''abc''" by blast
  have d: "cleaned ascii_isalnum ascii_lower ''Dormitory'' = ''dormitory''" by code_simp
  have e: "cleaned ascii_isalnum ascii_lower ''dirty room'' = ''dirtyroom''" by code_simp
  have m: "mset ''dormitory'' = mset ''dirtyroom''" by simp
  from are_anagrams_spec[of ascii_isalnum ascii_lower "''Dormitory''" "''dirty room''"
      "''dormitory''" "''dirtyroom''"] d e m
  have y: "are_anagrams ascii_isalnum ascii_lower ''Dormitory'' ''dirty room''"
    by simp
  have a: "cleaned ascii_isalnum ascii_lower ''aab'' = ''aab''" by code_simp
  have b: "cleaned ascii_isalnum ascii_lower ''abb'' = ''abb''" by code_simp
  have m2: "mset ''aab'' \<noteq> mset ''abb''" by simp
  from are_anagrams_spec[of ascii_isalnum ascii_lower "''aab''" "''abb''" "''aab''" "''abb''"]
    a b m2
  have n2: "\<not> are_anagrams ascii_isalnum ascii_lower ''aab'' ''abb''"
    by simp
  show ?thesis using h n1 y n2 by blast
qed

subsection \<open>C7: \<open>is_palindrome\<close>\<close>

text \<open>
  Claim C7: \<open>is_palindrome\<close> holds exactly when the cleaned text (its alphanumeric
  characters, lower-cased) equals its own reverse, whatever \<open>isalnum\<close> and \<open>lower\<close>
  do on single characters. A cleaned text of at most one character is a palindrome;
  \<open>A man a plan a canal Panama\<close> is one and \<open>hello\<close> is not.
\<close>

theorem is_palindrome_spec:
  "(is_palindrome isalnum lower text \<longleftrightarrow>
      cleaned isalnum lower text = rev (cleaned isalnum lower text))
   \<and> cleaned isalnum lower text = concat (map lower (filter isalnum text))
   \<and> (length (cleaned isalnum lower text) \<le> 1 \<longrightarrow> is_palindrome isalnum lower text)
   \<and> is_palindrome ascii_isalnum ascii_lower ''A man a plan a canal Panama''
   \<and> \<not> is_palindrome ascii_isalnum ascii_lower ''hello''"
proof -
  have short: "c = rev c" if "length c \<le> 1" for c :: "'a list"
    using that by (cases c) auto
  have "is_palindrome ascii_isalnum ascii_lower ''A man a plan a canal Panama''"
    by code_simp
  moreover have "\<not> is_palindrome ascii_isalnum ascii_lower ''hello''"
    by code_simp
  ultimately show ?thesis
    using short[of "cleaned isalnum lower text"]
    by (simp add: is_palindrome_def Let_def cleaned_def)
qed

theorem is_palindrome_spec_witness:
  "length (cleaned ascii_isalnum ascii_lower ''x!'') \<le> 1
   \<and> is_palindrome ascii_isalnum ascii_lower ''x!''"
proof -
  have h: "length (cleaned ascii_isalnum ascii_lower ''x!'') \<le> 1"
    by code_simp
  from is_palindrome_spec[of ascii_isalnum ascii_lower "''x!''"] h
  have "is_palindrome ascii_isalnum ascii_lower ''x!''" by blast
  with h show ?thesis by blast
qed

subsection \<open>C8: the two queries change nothing\<close>

text \<open>
  Claim C8: neither \<open>running_average\<close> nor \<open>find_peaks\<close> changes the object, so a
  query repeated with the same argument, with or without the other query in between
  and with no \<open>add_numbers\<close>, returns the same result.
\<close>

theorem queries_idempotent:
  "snd (running_average ops self) = self
   \<and> snd (find_peaks threshold self) = self
   \<and> fst (running_average ops (snd (running_average ops self)))
       = fst (running_average ops self)
   \<and> fst (find_peaks threshold (snd (find_peaks threshold self)))
       = fst (find_peaks threshold self)
   \<and> fst (running_average ops (snd (find_peaks threshold self)))
       = fst (running_average ops self)
   \<and> fst (find_peaks threshold (snd (running_average ops self)))
       = fst (find_peaks threshold self)"
  by (simp add: snd_running_average snd_find_peaks)

subsection \<open>C9: the threshold only filters\<close>

text \<open>
  Claim C9: \<open>find_peaks\<close> with threshold \<open>t\<close> returns the pairs of \<open>find_peaks\<close>
  without threshold whose value is strictly greater than \<open>t\<close>, in the same order; so
  its result is a subsequence of the result without threshold. This holds for every
  stored sequence: below 3 elements both results are empty.
\<close>

theorem find_peaks_threshold:
  "fst (find_peaks (Some t) self) = filter (\<lambda>(i, v). v > t) (fst (find_peaks None self))
   \<and> subseq (fst (find_peaks (Some t) self)) (fst (find_peaks None self))"
proof -
  have eq: "fst (find_peaks (Some t) self) = filter (\<lambda>(i, v). v > t) (fst (find_peaks None self))"
    by (rule find_peaks_threshold_filter)
  have "subseq (filter (\<lambda>(i, v). v > t) (fst (find_peaks None self))) (fst (find_peaks None self))"
    by (rule subseq_filter_left)
  with eq show ?thesis by simp
qed

subsection \<open>C10: the number of permutations\<close>

text \<open>
  Claim C10: on a list of length \<open>N\<close>, \<open>get_permutations\<close> returns \<open>N!\<close> lists, each
  a rearrangement of the input (the same elements with the same multiplicities). When
  an element occurs twice in the input, some ordering occurs more than once in the
  result: nothing is deduplicated.
\<close>

theorem get_permutations_count:
  "length (get_permutations xs) = fact (length xs)
   \<and> (\<forall>p \<in> set (get_permutations xs). mset p = mset xs)
   \<and> (\<not> distinct xs \<longrightarrow> \<not> distinct (get_permutations xs))"
  using length_get_permutations[of xs] set_get_permutations[of xs]
    get_permutations_not_distinct[of xs] by blast

theorem get_permutations_count_witness:
  "\<not> distinct ''ABA''
   \<and> ''BAA'' \<in> set (get_permutations ''ABA'')
   \<and> length (get_permutations ''ABA'') = 6
   \<and> mset ''BAA'' = mset ''ABA''
   \<and> \<not> distinct (get_permutations ''ABA'')"
proof -
  have d: "\<not> distinct ''ABA''" by simp
  have m: "''BAA'' \<in> set (get_permutations ''ABA'')" by code_simp
  from get_permutations_count[of "''ABA''"] d m
  have "length (get_permutations ''ABA'') = fact (length ''ABA'')"
    "mset ''BAA'' = mset ''ABA''" "\<not> distinct (get_permutations ''ABA'')"
    by blast+
  moreover have "fact (length ''ABA'') = (6::nat)" by (simp add: fact_numeral)
  ultimately show ?thesis using d m by simp
qed

end
